theory Spec2Isabelle
  imports Main "HOL-Library.Word"
begin

section \<open>kudu::faststring (src/util/faststring.h)\<close>

text \<open>
  A faststring owns a byte array: either the array \<open>initial_data_\<close> embedded in the
  object, or an array obtained from \<open>new uint8_t[n]\<close>. The C++ fields \<open>data_\<close>,
  \<open>initial_data_\<close>, \<open>len_\<close> and \<open>capacity_\<close> are the record fields \<open>fs_data\<close>,
  \<open>fs_initial_data\<close>, \<open>fs_len\<close> and \<open>fs_capacity\<close> (a name cannot end in an
  underscore here).

  \<^item> The pointer \<open>data_\<close> is a tag: \<open>Inline\<close> when \<open>data_ == initial_data_\<close>, and
    \<open>Heap a\<close> when it points to a heap array whose bytes are \<open>a\<close>. The embedded array
    stays in the object (with whatever it held) while the buffer lives on the heap.
  \<^item> \<open>size_t\<close> values are \<open>nat\<close>: every one of them is the size of an array that
    exists in memory or a count of bytes readable behind a pointer, so the sums the
    code forms stay far below \<open>2 ^ 64\<close>.
  \<^item> \<open>int\<close> is 32 bits wide: \<open>to_int\<close> is the conversion to it, written out where
    \<open>AdvanceToSuccessor\<close> stores \<open>len_ - 1\<close> in an \<open>int\<close>. Where \<open>index + 1\<close> leaves
    the range of \<open>int\<close> (only at \<open>index = INT_MAX\<close>), the model wraps around.
  \<^item> \<open>new uint8_t[n]\<close> returns \<open>n\<close> bytes of unspecified content. Each operation that
    may allocate takes that content as the parameter \<open>uninit\<close>.
  \<^item> The source pointer of \<open>append\<close> is \<open>Outside bytes\<close>, memory apart from the buffer
    holding \<open>bytes\<close>, or \<open>Within k\<close>, the address \<open>data_ + k\<close> inside the buffer's own
    array. The byte loop of \<open>append\<close> reads a source inside the array it writes from
    that array as it stands, so it sees the bytes it has just written. Two reads are
    undefined in C++ and the model gives them a value all the same: \<open>memcpy\<close> with
    overlapping ranges copies the bytes the source held when the call started, and a
    read of an array that growth has freed returns the bytes the array held. The
    theorems about contents exclude both by hypothesis.
  \<^item> The source of \<open>assign_copy\<close> is the list of the bytes readable behind it when the
    call starts: its one copy is a \<open>memcpy\<close>, which must not overlap its source.
  \<^item> Allocation failure is not modelled.
\<close>

type_synonym byte = "8 word"

datatype storage = Inline | Heap "byte list"

record faststring =
  fs_data :: storage
  fs_initial_data :: "byte list"
  fs_len :: nat
  fs_capacity :: nat

definition kInitialCapacity :: nat where
  "kInitialCapacity = 32"

definition new_uint8 :: "(nat \<Rightarrow> byte) \<Rightarrow> nat \<Rightarrow> byte list" where
  \<comment> \<open>\<open>new uint8_t[n]\<close>\<close>
  "new_uint8 uninit n = map uninit [0..<n]"

definition memcpy :: "byte list \<Rightarrow> nat \<Rightarrow> byte list \<Rightarrow> nat \<Rightarrow> byte list" where
  \<comment> \<open>\<open>memcpy(&dst[off], src, n)\<close>, for \<open>off + n \<le> length dst\<close> and \<open>n \<le> length src\<close>\<close>
  "memcpy dst off src n = take off dst @ take n src @ drop (off + n) dst"

definition to_int :: "int \<Rightarrow> int" where
  \<comment> \<open>conversion of an integer value to the 32-bit \<open>int\<close>\<close>
  "to_int x = signed_take_bit 31 x"

definition to_size_t :: "int \<Rightarrow> nat" where
  \<comment> \<open>conversion of an \<open>int\<close> to the 64-bit \<open>size_t\<close>\<close>
  "to_size_t x = nat (x mod 2 ^ 64)"

definition data :: "faststring \<Rightarrow> byte list" where
  \<comment> \<open>the array \<open>data_\<close> points to\<close>
  "data s = (case fs_data s of Inline \<Rightarrow> fs_initial_data s | Heap a \<Rightarrow> a)"

definition store :: "faststring \<Rightarrow> byte list \<Rightarrow> faststring" where
  \<comment> \<open>a write through \<open>data_\<close>: the array it points to becomes \<open>a\<close>\<close>
  "store s a = (case fs_data s of
                  Inline \<Rightarrow> s\<lparr>fs_initial_data := a\<rparr>
                | Heap _ \<Rightarrow> s\<lparr>fs_data := Heap a\<rparr>)"

definition faststring_default :: "(nat \<Rightarrow> byte) \<Rightarrow> faststring" where
  \<comment> \<open>\<open>faststring()\<close>; \<open>init\<close> is the unspecified content of the embedded array\<close>
  "faststring_default init =
     \<lparr>fs_data = Inline, fs_initial_data = new_uint8 init kInitialCapacity,
      fs_len = 0, fs_capacity = kInitialCapacity\<rparr>"

definition faststring_capacity :: "(nat \<Rightarrow> byte) \<Rightarrow> (nat \<Rightarrow> byte) \<Rightarrow> nat \<Rightarrow> faststring" where
  \<comment> \<open>\<open>faststring(size_t capacity)\<close>\<close>
  "faststring_capacity init uninit capacity =
     (let s = faststring_default init
      in if capacity > fs_capacity s
         then s\<lparr>fs_data := Heap (new_uint8 uninit capacity), fs_capacity := capacity\<rparr>
         else s)"

definition GrowArray :: "(nat \<Rightarrow> byte) \<Rightarrow> nat \<Rightarrow> faststring \<Rightarrow> faststring" where
  \<comment> \<open>Modelled from the spec: \<open>faststring::GrowArray\<close> is declared in faststring.h and
      defined outside src/. The spec (reserve): "allocate a new array of exactly
      newCapacity bytes, copy the first length valid bytes from the old storage into it,
      release old heap storage if it was heap-allocated (inline storage is never freed,
      only abandoned), and adopt the new array with capacity = newCapacity".\<close>
  "GrowArray uninit newcapacity s =
     s\<lparr>fs_data := Heap (memcpy (new_uint8 uninit newcapacity) 0 (data s) (fs_len s)),
       fs_capacity := newcapacity\<rparr>"

definition GrowByAtLeast :: "(nat \<Rightarrow> byte) \<Rightarrow> nat \<Rightarrow> faststring \<Rightarrow> faststring" where
  \<comment> \<open>Modelled from the spec: \<open>faststring::GrowByAtLeast\<close> is declared in faststring.h and
      defined outside src/. The spec (growth policy): "when appending count bytes and
      length + count > capacity, grow to max(length + count, capacity + capacity/2)".\<close>
  "GrowByAtLeast uninit count s =
     GrowArray uninit (max (fs_len s + count) (fs_capacity s + fs_capacity s div 2)) s"

definition reserve :: "(nat \<Rightarrow> byte) \<Rightarrow> nat \<Rightarrow> faststring \<Rightarrow> faststring" where
  "reserve uninit newcapacity s =
     (if newcapacity \<le> fs_capacity s then s else GrowArray uninit newcapacity s)"

definition resize :: "(nat \<Rightarrow> byte) \<Rightarrow> nat \<Rightarrow> faststring \<Rightarrow> faststring" where
  "resize uninit newsize s =
     (let s1 = (if newsize > fs_capacity s then reserve uninit newsize s else s)
      in s1\<lparr>fs_len := newsize\<rparr>)"

definition clear :: "(nat \<Rightarrow> byte) \<Rightarrow> faststring \<Rightarrow> faststring" where
  "clear uninit s = resize uninit 0 s"

definition release :: "(nat \<Rightarrow> byte) \<Rightarrow> faststring \<Rightarrow> byte list \<times> faststring" where
  \<comment> \<open>the first component is the array behind the returned pointer\<close>
  "release uninit s =
     (let ret = (case fs_data s of
                   Inline \<Rightarrow> memcpy (new_uint8 uninit (fs_len s)) 0 (data s) (fs_len s)
                 | Heap a \<Rightarrow> a)
      in (ret, s\<lparr>fs_len := 0, fs_capacity := kInitialCapacity, fs_data := Inline\<rparr>))"

definition EnsureRoomForAppend :: "(nat \<Rightarrow> byte) \<Rightarrow> nat \<Rightarrow> faststring \<Rightarrow> faststring" where
  "EnsureRoomForAppend uninit count s =
     (if fs_len s + count \<le> fs_capacity s then s else GrowByAtLeast uninit count s)"

datatype pointer = Outside "byte list" | Within nat

datatype source = Fixed "byte list" | Live nat

definition src_bytes :: "faststring \<Rightarrow> pointer \<Rightarrow> byte list" where
  \<comment> \<open>the bytes readable behind a pointer in state \<open>s\<close>\<close>
  "src_bytes s src = (case src of Outside bytes \<Rightarrow> bytes | Within k \<Rightarrow> drop k (data s))"

definition locate :: "faststring \<Rightarrow> nat \<Rightarrow> pointer \<Rightarrow> source" where
  \<comment> \<open>where \<open>src\<close> points once \<open>EnsureRoomForAppend(count)\<close> has run on \<open>s\<close>: into the
      array that is written (\<open>Live\<close>, when \<open>data_\<close> has not moved), or to bytes that
      the copy does not touch (\<open>Fixed\<close>: memory outside, or the array \<open>data_\<close> has left)\<close>
  "locate s count src =
     (case src of
        Outside bytes \<Rightarrow> Fixed bytes
      | Within k \<Rightarrow> if fs_len s + count \<le> fs_capacity s then Live k
                    else Fixed (drop k (data s)))"

fun read_src :: "byte list \<Rightarrow> source \<Rightarrow> nat \<Rightarrow> byte" where
  \<comment> \<open>\<open>src[i]\<close>, read while the written array is \<open>arr\<close>\<close>
  "read_src arr (Fixed bytes) i = bytes ! i"
| "read_src arr (Live k) i = arr ! (k + i)"

fun snapshot :: "byte list \<Rightarrow> source \<Rightarrow> byte list" where
  \<comment> \<open>the bytes behind the source while the written array is \<open>arr\<close>\<close>
  "snapshot arr (Fixed bytes) = bytes"
| "snapshot arr (Live k) = drop k arr"

function copy_loop :: "byte list \<Rightarrow> nat \<Rightarrow> source \<Rightarrow> nat \<Rightarrow> nat \<Rightarrow> byte list" where
  \<comment> \<open>\<open>for (int i = 0; i < count; i++) *p++ = *src++;\<close> with \<open>p = &dst[off]\<close>:
      the array \<open>dst\<close> after the iterations from \<open>i\<close> on; each iteration reads
      \<open>src[i]\<close> from memory as the iterations before it left it\<close>
  "copy_loop dst off src i count =
     (if i < count then copy_loop (dst[off + i := read_src dst src i]) off src (i + 1) count
      else dst)"
  by pat_completeness auto
termination
  by (relation "measure (\<lambda>(dst, off, src, i, count). count - i)") auto

definition append_bytes :: "(nat \<Rightarrow> byte) \<Rightarrow> pointer \<Rightarrow> nat \<Rightarrow> faststring \<Rightarrow> faststring" where
  \<comment> \<open>\<open>append(const void *src_v, size_t count)\<close>\<close>
  "append_bytes uninit src count s =
     (let s1 = EnsureRoomForAppend uninit count s;
          origin = locate s count src;
          s2 = (if count \<le> 4
                then store s1 (copy_loop (data s1) (fs_len s1) origin 0 count)
                else store s1 (memcpy (data s1) (fs_len s1) (snapshot (data s1) origin) count))
      in s2\<lparr>fs_len := fs_len s2 + count\<rparr>)"

definition append_string :: "(nat \<Rightarrow> byte) \<Rightarrow> byte list \<Rightarrow> faststring \<Rightarrow> faststring" where
  \<comment> \<open>\<open>append(const std::string &str)\<close>; the bytes of a \<open>std::string\<close> are outside the buffer\<close>
  "append_string uninit str s = append_bytes uninit (Outside str) (length str) s"

definition push_back :: "(nat \<Rightarrow> byte) \<Rightarrow> byte \<Rightarrow> faststring \<Rightarrow> faststring" where
  "push_back uninit b s =
     (let s1 = EnsureRoomForAppend uninit 1 s;
          s2 = store s1 ((data s1)[fs_len s1 := b])
      in s2\<lparr>fs_len := fs_len s2 + 1\<rparr>)"

definition assign_copy :: "(nat \<Rightarrow> byte) \<Rightarrow> byte list \<Rightarrow> nat \<Rightarrow> faststring \<Rightarrow> faststring" where
  "assign_copy uninit src len s =
     (let s1 = s\<lparr>fs_len := 0\<rparr>;
          s2 = resize uninit len s1
      in store s2 (memcpy (data s2) 0 src len))"

definition ToString :: "faststring \<Rightarrow> byte list" where
  \<comment> \<open>\<open>std::string(data(), len_)\<close>, as its bytes\<close>
  "ToString s = take (fs_len s) (data s)"

function AdvanceToSuccessor_loop ::
  "(nat \<Rightarrow> byte) \<Rightarrow> faststring \<Rightarrow> bool \<Rightarrow> int \<Rightarrow> bool \<times> faststring" where
  \<comment> \<open>the \<open>while\<close> loop; \<open>index\<close> is not negative where \<open>index - 1\<close> is formed, so
      only \<open>index + 1\<close> can leave the range of \<open>int\<close>\<close>
  "AdvanceToSuccessor_loop uninit s is_done index =
     (if \<not> is_done \<and> 0 \<le> index then
        (if data s ! nat index = 255
         then AdvanceToSuccessor_loop uninit s is_done (index - 1)
         else AdvanceToSuccessor_loop uninit
                (resize uninit (to_size_t (to_int (index + 1)))
                   (store s ((data s)[nat index := data s ! nat index + 1])))
                True index)
      else (is_done, s))"
  by pat_completeness auto
termination
  by (relation "measure (\<lambda>(uninit, s, is_done, index). (if is_done then 0 else 1) + nat (index + 1))")
     auto

definition AdvanceToSuccessor :: "(nat \<Rightarrow> byte) \<Rightarrow> faststring \<Rightarrow> bool \<times> faststring" where
  "AdvanceToSuccessor uninit s =
     AdvanceToSuccessor_loop uninit s False (to_int (int (fs_len s) - 1))"

subsection \<open>Buffers, operations and runs\<close>

definition zero_fill :: "nat \<Rightarrow> byte" where
  \<comment> \<open>one possible content of fresh memory, for concrete inputs\<close>
  "zero_fill i = 0"

definition fs_inv :: "faststring \<Rightarrow> bool" where
  \<comment> \<open>a buffer: \<open>data_\<close> points to an array of \<open>capacity_\<close> bytes, the embedded array
      has \<open>kInitialCapacity\<close> bytes, and the length is within the capacity\<close>
  "fs_inv s \<longleftrightarrow>
     fs_len s \<le> fs_capacity s \<and> kInitialCapacity \<le> fs_capacity s \<and>
     length (data s) = fs_capacity s \<and> length (fs_initial_data s) = kInitialCapacity"

definition fs_bounds :: "faststring \<Rightarrow> bool" where
  "fs_bounds s \<longleftrightarrow> fs_len s \<le> fs_capacity s \<and> kInitialCapacity \<le> fs_capacity s"

datatype operation =
    Clear | Resize nat | Reserve nat | Append pointer nat | PushBack byte
  | AssignCopy "byte list" nat | Release | Advance

fun apply_op :: "(nat \<Rightarrow> byte) \<Rightarrow> operation \<Rightarrow> faststring \<Rightarrow> faststring" where
  \<comment> \<open>the buffer after one call of a mutating member function\<close>
  "apply_op uninit Clear s = clear uninit s"
| "apply_op uninit (Resize n) s = resize uninit n s"
| "apply_op uninit (Reserve n) s = reserve uninit n s"
| "apply_op uninit (Append src count) s = append_bytes uninit src count s"
| "apply_op uninit (PushBack b) s = push_back uninit b s"
| "apply_op uninit (AssignCopy src len) s = assign_copy uninit src len s"
| "apply_op uninit Release s = snd (release uninit s)"
| "apply_op uninit Advance s = snd (AdvanceToSuccessor uninit s)"

fun run_ops :: "((nat \<Rightarrow> byte) \<times> operation) list \<Rightarrow> faststring \<Rightarrow> faststring" where
  \<comment> \<open>a sequence of calls, each with the content of the memory it may allocate\<close>
  "run_ops [] s = s"
| "run_ops ((uninit, op) # rest) s = run_ops rest (apply_op uninit op s)"

fun append_all :: "(nat \<Rightarrow> byte) \<Rightarrow> (pointer \<times> nat) list \<Rightarrow> faststring \<Rightarrow> faststring" where
  \<comment> \<open>a sequence of \<open>append(src, count)\<close> calls\<close>
  "append_all uninit [] s = s"
| "append_all uninit ((src, count) # rest) s =
     append_all uninit rest (append_bytes uninit src count s)"

fun appended :: "(nat \<Rightarrow> byte) \<Rightarrow> (pointer \<times> nat) list \<Rightarrow> faststring \<Rightarrow> byte list" where
  \<comment> \<open>the byte sequences a sequence of calls is given, in order: for each call the
      \<open>count\<close> bytes behind \<open>src\<close> when that call starts\<close>
  "appended uninit [] s = []"
| "appended uninit ((src, count) # rest) s =
     take count (src_bytes s src) @ appended uninit rest (append_bytes uninit src count s)"

definition src_apart :: "faststring \<Rightarrow> pointer \<Rightarrow> nat \<Rightarrow> bool" where
  \<comment> \<open>the \<open>count\<close> bytes behind \<open>src\<close> exist, and the call neither writes nor frees them:
      they are outside the buffer, or among its valid bytes while the array is not
      freed (the append fits, or the array is the embedded one)\<close>
  "src_apart s src count =
     (case src of
        Outside bytes \<Rightarrow> count \<le> length bytes
      | Within k \<Rightarrow> k + count \<le> fs_len s
                    \<and> (fs_len s + count \<le> fs_capacity s \<or> fs_data s = Inline))"

fun sources_apart :: "(nat \<Rightarrow> byte) \<Rightarrow> (pointer \<times> nat) list \<Rightarrow> faststring \<Rightarrow> bool" where
  \<comment> \<open>\<open>src_apart\<close> for each call of a sequence, in the state the call starts in\<close>
  "sources_apart uninit [] s = True"
| "sources_apart uninit ((src, count) # rest) s =
     (src_apart s src count \<and> sources_apart uninit rest (append_bytes uninit src count s))"

fun valid_call :: "faststring \<Rightarrow> operation \<Rightarrow> bool" where
  \<comment> \<open>the calls whose source holds the bytes they are told to read\<close>
  "valid_call s (Append src count) = src_apart s src count"
| "valid_call s (AssignCopy src len) = (len \<le> length src)"
| "valid_call s _ = True"

fun valid_run :: "((nat \<Rightarrow> byte) \<times> operation) list \<Rightarrow> faststring \<Rightarrow> bool" where
  "valid_run [] s = True"
| "valid_run ((uninit, op) # rest) s = (valid_call s op \<and> valid_run rest (apply_op uninit op s))"

definition inline_buffer :: "byte list \<Rightarrow> faststring" where
  \<comment> \<open>a buffer holding \<open>xs\<close> (at most \<open>kInitialCapacity\<close> bytes) in its embedded array\<close>
  "inline_buffer xs =
     \<lparr>fs_data = Inline, fs_initial_data = xs @ replicate (kInitialCapacity - length xs) 0,
      fs_len = length xs, fs_capacity = kInitialCapacity\<rparr>"

definition long_buffer :: faststring where
  \<comment> \<open>\<open>faststring s; s.resize(2147483649);\<close> on zero-filled memory\<close>
  "long_buffer = resize zero_fill (2 ^ 31 + 1) (faststring_default zero_fill)"

definition spec_successor :: "byte list \<Rightarrow> byte list" where
  \<comment> \<open>the successor in the spec's words: the trailing 0xFF bytes are dropped and the
      last byte that is left is incremented\<close>
  "spec_successor xs =
     (let p = rev (dropWhile (\<lambda>b. b = 255) (rev xs)) in butlast p @ [last p + 1])"

definition bytes_less :: "byte list \<Rightarrow> byte list \<Rightarrow> bool" where
  \<comment> \<open>the lexicographic order of byte sequences (bytes compared unsigned, a proper
      prefix before its extensions)\<close>
  "bytes_less xs ys \<longleftrightarrow> ord_class.lexordp xs ys"

section \<open>Basic facts\<close>

declare AdvanceToSuccessor_loop.simps [simp del] copy_loop.simps [simp del]

lemma length_new_uint8 [simp]: "length (new_uint8 uninit n) = n"
  by (simp add: new_uint8_def)

lemma nth_new_uint8 [simp]: "i < n \<Longrightarrow> new_uint8 uninit n ! i = uninit i"
  by (simp add: new_uint8_def)

lemma store_fields [simp]:
  "fs_len (store s a) = fs_len s"
  "fs_capacity (store s a) = fs_capacity s"
  "data (store s a) = a"
  by (simp_all add: store_def data_def split: storage.splits)

lemma data_update [simp]:
  "data (s\<lparr>fs_len := n\<rparr>) = data s"
  "data (s\<lparr>fs_capacity := n\<rparr>) = data s"
  by (simp_all add: data_def split: storage.splits)

lemma GrowArray_fields [simp]:
  "fs_len (GrowArray uninit n s) = fs_len s"
  "fs_capacity (GrowArray uninit n s) = n"
  "fs_initial_data (GrowArray uninit n s) = fs_initial_data s"
  "data (GrowArray uninit n s) = memcpy (new_uint8 uninit n) 0 (data s) (fs_len s)"
  by (simp_all add: GrowArray_def data_def)

lemma length_memcpy:
  "off + n \<le> length dst \<Longrightarrow> n \<le> length src \<Longrightarrow> length (memcpy dst off src n) = length dst"
  by (simp add: memcpy_def)

lemma take_memcpy:
  "off + n \<le> length dst \<Longrightarrow> n \<le> length src \<Longrightarrow>
   take (off + n) (memcpy dst off src n) = take off dst @ take n src"
  by (simp add: memcpy_def)

lemma resize_fields [simp]:
  "fs_len (resize uninit n s) = n"
  "fs_capacity (resize uninit n s) = max n (fs_capacity s)"
  "fs_initial_data (resize uninit n s) = fs_initial_data s"
  by (simp_all add: resize_def reserve_def Let_def)

lemma data_resize:
  "data (resize uninit n s) =
     (if fs_capacity s < n then memcpy (new_uint8 uninit n) 0 (data s) (fs_len s) else data s)"
  by (simp add: resize_def reserve_def Let_def)

lemma EnsureRoomForAppend_capacity:
  "fs_capacity s \<le> fs_capacity (EnsureRoomForAppend uninit count s)"
  by (simp add: EnsureRoomForAppend_def GrowByAtLeast_def max.coboundedI2)

lemma EnsureRoomForAppend_len [simp]:
  "fs_len (EnsureRoomForAppend uninit count s) = fs_len s"
  by (simp add: EnsureRoomForAppend_def GrowByAtLeast_def)

lemma EnsureRoomForAppend_room:
  "fs_len s + count \<le> fs_capacity (EnsureRoomForAppend uninit count s)"
  by (simp add: EnsureRoomForAppend_def GrowByAtLeast_def)

lemma append_bytes_fields [simp]:
  "fs_len (append_bytes uninit src count s) = fs_len s + count"
  "fs_capacity (append_bytes uninit src count s) = fs_capacity (EnsureRoomForAppend uninit count s)"
  by (simp_all add: append_bytes_def Let_def)

lemma push_back_fields [simp]:
  "fs_len (push_back uninit b s) = fs_len s + 1"
  "fs_capacity (push_back uninit b s) = fs_capacity (EnsureRoomForAppend uninit 1 s)"
  by (simp_all add: push_back_def Let_def)

lemma assign_copy_fields [simp]:
  "fs_len (assign_copy uninit src len s) = len"
  "fs_capacity (assign_copy uninit src len s) = max len (fs_capacity s)"
  by (simp_all add: assign_copy_def Let_def)

lemma fs_inv_default: "fs_inv (faststring_default init)"
  by (simp add: fs_inv_def faststring_default_def data_def)

lemma fs_inv_capacity: "fs_inv (faststring_capacity init uninit capacity)"
  by (simp add: fs_inv_def faststring_capacity_def faststring_default_def data_def Let_def)

subsection \<open>The loop of AdvanceToSuccessor, one iteration at a time\<close>

lemma AdvanceToSuccessor_loop_stop:
  "is_done \<or> index < 0 \<Longrightarrow> AdvanceToSuccessor_loop uninit s is_done index = (is_done, s)"
  by (subst AdvanceToSuccessor_loop.simps) auto

lemma AdvanceToSuccessor_loop_skip:
  "0 \<le> index \<Longrightarrow> data s ! nat index = 255 \<Longrightarrow>
   AdvanceToSuccessor_loop uninit s False index = AdvanceToSuccessor_loop uninit s False (index - 1)"
  by (subst AdvanceToSuccessor_loop.simps) simp

lemma AdvanceToSuccessor_loop_hit:
  "0 \<le> index \<Longrightarrow> data s ! nat index \<noteq> 255 \<Longrightarrow>
   AdvanceToSuccessor_loop uninit s False index =
     (True, resize uninit (to_size_t (to_int (index + 1)))
              (store s ((data s)[nat index := data s ! nat index + 1])))"
  by (subst AdvanceToSuccessor_loop.simps) (simp add: AdvanceToSuccessor_loop_stop)

lemma AdvanceToSuccessor_loop_cases:
  obtains "is_done \<or> index < 0"
  | "\<not> is_done" and "0 \<le> index" and "data s ! nat index = 255"
  | "\<not> is_done" and "0 \<le> index" and "data s ! nat index \<noteq> 255"
  by linarith

section \<open>Growth: reserve, resize, append\<close>

text \<open>
  C5. When an append of \<open>count\<close> bytes does not fit (\<open>len_ + count > capacity_\<close>), the
  capacity afterwards is at least the old capacity plus half of it (integer division)
  and at least the new length \<open>len_ + count\<close>.
\<close>

theorem append_growth:
  assumes "fs_capacity s < fs_len s + count"
  shows "fs_capacity s + fs_capacity s div 2 \<le> fs_capacity (append_bytes uninit src count s)
       \<and> fs_len s + count \<le> fs_capacity (append_bytes uninit src count s)
       \<and> fs_len (append_bytes uninit src count s) = fs_len s + count"
  using assms
  by (simp add: EnsureRoomForAppend_def GrowByAtLeast_def)

theorem append_growth_witness:
  "fs_capacity (faststring_default zero_fill) < fs_len (faststring_default zero_fill) + 40
   \<and> 48 \<le> fs_capacity (append_bytes zero_fill (Outside (replicate 40 7)) 40 (faststring_default zero_fill))"
  using append_growth [of "faststring_default zero_fill" 40 zero_fill "Outside (replicate 40 7)"]
  by (simp add: faststring_default_def kInitialCapacity_def)

text \<open>
  C6. For a buffer and \<open>n\<close> above its capacity, \<open>reserve(n)\<close> makes the capacity exactly
  \<open>n\<close> and keeps the length and the first \<open>len_\<close> bytes; for \<open>n\<close> within the capacity,
  \<open>reserve(n)\<close> changes nothing at all.
\<close>

theorem reserve_exact:
  assumes "fs_inv s"
  shows "(fs_capacity s < n \<longrightarrow>
            fs_capacity (reserve uninit n s) = n \<and> fs_len (reserve uninit n s) = fs_len s \<and>
            take (fs_len s) (data (reserve uninit n s)) = take (fs_len s) (data s))
       \<and> (n \<le> fs_capacity s \<longrightarrow> reserve uninit n s = s)"
  using assms
  by (auto simp add: reserve_def fs_inv_def memcpy_def)

theorem reserve_exact_witness:
  "fs_capacity (reserve zero_fill 40 (faststring_capacity zero_fill zero_fill 36)) = 40
   \<and> reserve zero_fill 10 (faststring_capacity zero_fill zero_fill 36)
       = faststring_capacity zero_fill zero_fill 36"
  using reserve_exact [OF fs_inv_capacity, of zero_fill zero_fill 36 40 zero_fill]
    reserve_exact [OF fs_inv_capacity, of zero_fill zero_fill 36 10 zero_fill]
  by (simp add: faststring_capacity_def faststring_default_def kInitialCapacity_def)

text \<open>
  C3, as the code has it. For a buffer and \<open>newsize\<close> above its capacity, \<open>resize(newsize)\<close>
  goes through \<open>reserve(newsize)\<close>: the capacity becomes exactly \<open>newsize\<close> (there is no
  growth by half), the length becomes \<open>newsize\<close>, the first old-length bytes are kept and
  the bytes between the old and the new length are not written: they hold what the
  allocation returned.
\<close>

theorem resize_grows_exactly:
  assumes "fs_inv s" and "fs_capacity s < n"
  shows "fs_capacity (resize uninit n s) = n \<and> fs_len (resize uninit n s) = n
       \<and> take (fs_len s) (data (resize uninit n s)) = take (fs_len s) (data s)
       \<and> (\<forall>i. fs_len s \<le> i \<and> i < n \<longrightarrow> data (resize uninit n s) ! i = uninit i)"
  using assms
  by (auto simp add: data_resize fs_inv_def memcpy_def nth_append)

theorem resize_grows_exactly_witness:
  "fs_inv (faststring_default zero_fill) \<and> fs_capacity (faststring_default zero_fill) < 33
   \<and> fs_capacity (resize zero_fill 33 (faststring_default zero_fill)) = 33
   \<and> data (resize zero_fill 33 (faststring_default zero_fill)) ! 32 = 0"
  using resize_grows_exactly [OF fs_inv_default, of zero_fill 33 zero_fill] fs_inv_default [of zero_fill]
  by (simp add: faststring_default_def kInitialCapacity_def zero_fill_def)

text \<open>
  C3, as the claim states it, fails: a default-constructed buffer has capacity 32, and
  \<open>resize(33)\<close> leaves it with capacity 33, below \<open>max 33 (32 + 32 div 2) = 48\<close>.
\<close>

theorem resize_geometric_counterexample:
  "fs_capacity (faststring_default zero_fill) < 33 \<and>
   \<not> max 33 (fs_capacity (faststring_default zero_fill)
               + fs_capacity (faststring_default zero_fill) div 2)
        \<le> fs_capacity (resize zero_fill 33 (faststring_default zero_fill))"
  by (simp add: faststring_default_def kInitialCapacity_def)

subsection \<open>Capacity across operations\<close>

lemma AdvanceToSuccessor_loop_capacity:
  "fs_capacity s \<le> fs_capacity (snd (AdvanceToSuccessor_loop uninit s is_done index))"
proof (induction uninit s is_done index rule: AdvanceToSuccessor_loop.induct)
  case (1 uninit s is_done index)
  show ?case
  proof (cases rule: AdvanceToSuccessor_loop_cases [where is_done = is_done and index = index and s = s])
    case 1
    then show ?thesis by (simp add: AdvanceToSuccessor_loop_stop)
  next
    case 2
    with "1.IH"(1) show ?thesis by (simp add: AdvanceToSuccessor_loop_skip)
  next
    case 3
    then show ?thesis by (simp add: AdvanceToSuccessor_loop_hit)
  qed
qed

text \<open>
  C4, as the code has it. Every operation other than \<open>release\<close> (clear, resize, reserve,
  append, push_back, assign_copy, AdvanceToSuccessor) leaves the capacity greater than
  or equal to the capacity before it; \<open>release\<close> sets the capacity back to
  \<open>kInitialCapacity\<close>.
\<close>

theorem capacity_monotone_except_release:
  "(op \<noteq> Release \<longrightarrow> fs_capacity s \<le> fs_capacity (apply_op uninit op s))
   \<and> fs_capacity (apply_op uninit Release s) = kInitialCapacity"
  by (cases op)
     (simp_all add: clear_def reserve_def EnsureRoomForAppend_capacity release_def Let_def
        AdvanceToSuccessor_def AdvanceToSuccessor_loop_capacity)

theorem capacity_monotone_except_release_witness:
  "Append (Outside [1, 2, 3, 4, 5]) 5 \<noteq> Release \<and>
   fs_capacity (faststring_capacity zero_fill zero_fill 100)
     \<le> fs_capacity (apply_op zero_fill (Append (Outside [1, 2, 3, 4, 5]) 5)
                       (faststring_capacity zero_fill zero_fill 100))"
  using capacity_monotone_except_release
          [of "Append (Outside [1, 2, 3, 4, 5]) 5" "faststring_capacity zero_fill zero_fill 100" zero_fill]
  by simp

text \<open>
  C4, as the claim states it, fails at \<open>release\<close>: a buffer constructed with capacity 100
  has capacity 32 after \<open>release()\<close>.
\<close>

theorem capacity_monotone_counterexample:
  "\<not> fs_capacity (faststring_capacity zero_fill zero_fill 100)
       \<le> fs_capacity (apply_op zero_fill Release (faststring_capacity zero_fill zero_fill 100))"
  by (simp add: faststring_capacity_def faststring_default_def release_def kInitialCapacity_def Let_def)

section \<open>release and assign_copy\<close>

text \<open>
  C7. After \<open>release()\<close> a buffer is a default-constructed one: length 0, capacity
  \<open>kInitialCapacity\<close>, \<open>data_\<close> pointing to the embedded array (whose bytes, unspecified
  in a new object, are the ones it held), so every operation gives the same result on the
  released buffer as on that new one. The array handed back starts with the \<open>len_\<close>
  valid bytes the buffer had.
\<close>

theorem release_resets:
  assumes "fs_inv s"
  shows "snd (release uninit s) = faststring_default (nth (fs_initial_data s))
       \<and> fs_len (snd (release uninit s)) = 0
       \<and> fs_capacity (snd (release uninit s)) = kInitialCapacity
       \<and> fs_data (snd (release uninit s)) = Inline
       \<and> run_ops ops (snd (release uninit s)) =
           run_ops ops (faststring_default (nth (fs_initial_data s)))
       \<and> take (fs_len s) (fst (release uninit s)) = ToString s"
proof -
  have eq: "snd (release uninit s) = faststring_default (nth (fs_initial_data s))"
    using assms
    by (cases s)
       (auto simp add: release_def faststring_default_def fs_inv_def new_uint8_def Let_def
          intro: map_nth [symmetric, THEN trans])
  have ret: "take (fs_len s) (fst (release uninit s)) = ToString s"
    using assms
    by (auto simp add: release_def ToString_def fs_inv_def memcpy_def data_def Let_def
          split: storage.splits)
  show ?thesis
    using ret by (simp add: eq) (simp add: faststring_default_def)
qed

theorem release_resets_witness:
  "fs_inv (push_back zero_fill 7 (faststring_capacity zero_fill zero_fill 40))
   \<and> fs_capacity (snd (release zero_fill (push_back zero_fill 7 (faststring_capacity zero_fill zero_fill 40)))) = 32
   \<and> take 1 (fst (release zero_fill (push_back zero_fill 7 (faststring_capacity zero_fill zero_fill 40)))) = [7]"
proof -
  let ?s = "push_back zero_fill 7 (faststring_capacity zero_fill zero_fill 40)"
  have len: "fs_len ?s = 1"
    by (simp add: faststring_capacity_def faststring_default_def kInitialCapacity_def)
  have dat: "data ?s = (new_uint8 zero_fill 40)[0 := 7]"
    by (simp add: push_back_def EnsureRoomForAppend_def faststring_capacity_def
          faststring_default_def kInitialCapacity_def Let_def) (simp add: data_def)
  have str: "ToString ?s = [7]"
    unfolding ToString_def dat len by (simp add: take_Suc_conv_app_nth)
  have inv: "fs_inv ?s"
    unfolding fs_inv_def dat len
    by (simp add: push_back_def EnsureRoomForAppend_def faststring_capacity_def
          faststring_default_def kInitialCapacity_def Let_def store_def)
  show ?thesis
    using release_resets [OF inv, of zero_fill] inv len str
    by (simp add: kInitialCapacity_def faststring_default_def)
qed

lemma fs_inv_store: "fs_inv s \<Longrightarrow> length a = fs_capacity s \<Longrightarrow> fs_inv (store s a)"
  by (auto simp add: fs_inv_def store_def data_def split: storage.splits)

lemma fs_inv_GrowArray:
  "fs_inv s \<Longrightarrow> fs_capacity s \<le> n \<Longrightarrow> fs_inv (GrowArray uninit n s)"
  by (auto simp add: fs_inv_def memcpy_def)

lemma fs_inv_resize: "fs_inv s \<Longrightarrow> fs_inv (resize uninit n s)"
  by (auto simp add: fs_inv_def data_resize memcpy_def)

lemma fs_inv_assign_copy:
  "fs_inv s \<Longrightarrow> len \<le> length src \<Longrightarrow> fs_inv (assign_copy uninit src len s)"
proof -
  assume inv: "fs_inv s" and len: "len \<le> length src"
  have "fs_inv (s\<lparr>fs_len := 0\<rparr>)" using inv by (simp add: fs_inv_def)
  then have inv2: "fs_inv (resize uninit len (s\<lparr>fs_len := 0\<rparr>))" by (rule fs_inv_resize)
  then have "len \<le> length (data (resize uninit len (s\<lparr>fs_len := 0\<rparr>)))"
    by (simp add: fs_inv_def)
  then have "length (memcpy (data (resize uninit len (s\<lparr>fs_len := 0\<rparr>))) 0 src len)
               = fs_capacity (resize uninit len (s\<lparr>fs_len := 0\<rparr>))"
    using len inv2 by (simp add: length_memcpy fs_inv_def)
  with inv2 show ?thesis
    unfolding assign_copy_def Let_def by (rule fs_inv_store)
qed

lemma fs_inv_inline_buffer: "length xs \<le> kInitialCapacity \<Longrightarrow> fs_inv (inline_buffer xs)"
  by (simp add: fs_inv_def inline_buffer_def data_def)

lemma ToString_inline_buffer: "ToString (inline_buffer xs) = xs"
  by (simp add: ToString_def inline_buffer_def data_def)

text \<open>
  C8. For every buffer and every \<open>len\<close> bytes behind \<open>src\<close>, whether \<open>len\<close> is below,
  equal to or above the capacity, \<open>assign_copy(src, len)\<close> followed by \<open>ToString()\<close> gives
  exactly those \<open>len\<close> bytes. The old contents are gone, and the new ones lie inside the
  array: the result is a buffer again, of length \<open>len\<close> within its capacity, with an
  array of as many bytes as the capacity.
\<close>

theorem assign_copy_ToString:
  assumes "fs_inv s" and "len \<le> length src"
  shows "ToString (assign_copy uninit src len s) = take len src
       \<and> fs_inv (assign_copy uninit src len s)
       \<and> fs_len (assign_copy uninit src len s) = len
       \<and> len \<le> length (data (assign_copy uninit src len s))
       \<and> fs_capacity (assign_copy uninit src len s) = max len (fs_capacity s)"
proof -
  have str: "ToString (assign_copy uninit src len s) = take len src"
    using assms
    by (simp add: ToString_def assign_copy_def Let_def data_resize fs_inv_def memcpy_def)
  have inv: "fs_inv (assign_copy uninit src len s)"
    using assms by (rule fs_inv_assign_copy)
  then have "len \<le> length (data (assign_copy uninit src len s))"
    by (simp add: fs_inv_def)
  with str inv show ?thesis by simp
qed

theorem assign_copy_ToString_witness:
  "ToString (inline_buffer [1, 2, 3, 4, 5]) = [1, 2, 3, 4, 5]
   \<and> ToString (assign_copy zero_fill [9, 8, 7] 2 (inline_buffer [1, 2, 3, 4, 5])) = [9, 8]
   \<and> ToString (assign_copy zero_fill (replicate 32 5) 32 (inline_buffer [1, 2, 3, 4, 5]))
       = replicate 32 5
   \<and> ToString (assign_copy zero_fill (replicate 40 9) 40 (inline_buffer [1, 2, 3, 4, 5]))
       = replicate 40 9
   \<and> fs_inv (assign_copy zero_fill (replicate 40 9) 40 (inline_buffer [1, 2, 3, 4, 5]))
   \<and> fs_capacity (assign_copy zero_fill (replicate 40 9) 40 (inline_buffer [1, 2, 3, 4, 5])) = 40"
proof -
  have inv: "fs_inv (inline_buffer [1, 2, 3, 4, 5])"
    by (rule fs_inv_inline_buffer) (simp add: kInitialCapacity_def)
  have cap: "fs_capacity (inline_buffer [1, 2, 3, 4, 5]) = 32"
    by (simp add: inline_buffer_def kInitialCapacity_def)
  show ?thesis
    using assign_copy_ToString [OF inv, of 2 "[9, 8, 7]" zero_fill]
      assign_copy_ToString [OF inv, of 32 "replicate 32 5" zero_fill]
      assign_copy_ToString [OF inv, of 40 "replicate 40 9" zero_fill]
    by (simp add: ToString_inline_buffer cap del: assign_copy_fields)
qed

section \<open>The bounds on length and capacity\<close>

lemma AdvanceToSuccessor_loop_bounds:
  "fs_bounds s \<Longrightarrow> fs_bounds (snd (AdvanceToSuccessor_loop uninit s is_done index))"
proof (induction uninit s is_done index rule: AdvanceToSuccessor_loop.induct)
  case (1 uninit s is_done index)
  show ?case
  proof (cases rule: AdvanceToSuccessor_loop_cases [where is_done = is_done and index = index and s = s])
    case 1
    with "1.prems" show ?thesis by (simp add: AdvanceToSuccessor_loop_stop)
  next
    case 2
    with "1.IH"(1) "1.prems" show ?thesis by (simp add: AdvanceToSuccessor_loop_skip)
  next
    case 3
    with "1.prems" show ?thesis
      by (simp add: AdvanceToSuccessor_loop_hit fs_bounds_def max.coboundedI2)
  qed
qed

lemma apply_op_bounds: "fs_bounds s \<Longrightarrow> fs_bounds (apply_op uninit op s)"
proof (cases op)
  case Advance
  assume "fs_bounds s"
  then show ?thesis
    using Advance by (simp add: AdvanceToSuccessor_def AdvanceToSuccessor_loop_bounds)
next
  case (Append src count)
  assume "fs_bounds s"
  then show ?thesis
    using Append EnsureRoomForAppend_room [of s count uninit]
      EnsureRoomForAppend_capacity [of s uninit count]
    by (simp add: fs_bounds_def)
next
  case (PushBack b)
  assume "fs_bounds s"
  then show ?thesis
    using PushBack EnsureRoomForAppend_room [of s 1 uninit]
      EnsureRoomForAppend_capacity [of s uninit 1]
    by (simp add: fs_bounds_def)
qed (auto simp add: fs_bounds_def clear_def reserve_def release_def Let_def max.coboundedI2)

lemma run_ops_bounds: "fs_bounds s \<Longrightarrow> fs_bounds (run_ops ops s)"
  by (induction ops s rule: run_ops.induct) (simp_all add: apply_op_bounds)

lemma fs_bounds_default: "fs_bounds (faststring_default init)"
  by (simp add: fs_bounds_def faststring_default_def)

lemma fs_bounds_capacity: "fs_bounds (faststring_capacity init uninit capacity)"
  by (simp add: fs_bounds_def faststring_capacity_def faststring_default_def Let_def)

text \<open>
  C9. Whatever sequence of operations (clear, resize, reserve, append, push_back,
  assign_copy, release, AdvanceToSuccessor) runs on a buffer made by either constructor,
  the state reached has \<open>len_ \<le> capacity_\<close> and \<open>capacity_ \<ge> kInitialCapacity\<close>
  (\<open>0 \<le> len_\<close> holds of every \<open>size_t\<close>).
\<close>

theorem reachable_bounds:
  "fs_len (run_ops ops (faststring_default init)) \<le> fs_capacity (run_ops ops (faststring_default init))
   \<and> kInitialCapacity \<le> fs_capacity (run_ops ops (faststring_default init))
   \<and> fs_len (run_ops ops (faststring_capacity init uninit capacity))
       \<le> fs_capacity (run_ops ops (faststring_capacity init uninit capacity))
   \<and> kInitialCapacity \<le> fs_capacity (run_ops ops (faststring_capacity init uninit capacity))"
  using run_ops_bounds [OF fs_bounds_default, of ops init]
    run_ops_bounds [OF fs_bounds_capacity, of ops init uninit capacity]
  by (simp add: fs_bounds_def)

section \<open>Appending\<close>

lemma copy_loop_eq:
  "src = Fixed bytes \<Longrightarrow> off + count \<le> length dst \<Longrightarrow> count \<le> length bytes \<Longrightarrow> i \<le> count \<Longrightarrow>
   copy_loop dst off src i count =
     take (off + i) dst @ take (count - i) (drop i bytes) @ drop (off + count) dst"
proof (induction dst off src i count rule: copy_loop.induct)
  case (1 dst off src i count)
  show ?case
  proof (cases "i < count")
    case False
    with "1.prems" show ?thesis by (subst copy_loop.simps) simp
  next
    case True
    let ?d = "dst[off + i := bytes ! i]"
    have ih: "copy_loop ?d off src (i + 1) count =
              take (off + (i + 1)) ?d @ take (count - (i + 1)) (drop (i + 1) bytes) @ drop (off + count) ?d"
      using "1.IH" [OF True] "1.prems" True by simp
    have a: "take (off + (i + 1)) ?d = take (off + i) dst @ [bytes ! i]"
      using "1.prems" True by (simp add: take_Suc_conv_app_nth)
    have b: "drop (off + count) ?d = drop (off + count) dst"
      using True by simp
    have c: "take (count - i) (drop i bytes) = bytes ! i # take (count - (i + 1)) (drop (i + 1) bytes)"
      using "1.prems" True
      by (metis Cons_nth_drop_Suc Suc_diff_Suc Suc_eq_plus1 less_le_trans take_Suc_Cons)
    show ?thesis
      using True "1.prems"(1) ih
      by (subst copy_loop.simps) (simp add: a b c del: One_nat_def)
  qed
qed

lemma copy_loop_memcpy:
  "off + count \<le> length dst \<Longrightarrow> count \<le> length bytes \<Longrightarrow>
   copy_loop dst off (Fixed bytes) 0 count = memcpy dst off bytes count"
  by (simp add: copy_loop_eq memcpy_def)

text \<open>
  A source inside the written array that ends before the first byte written is never
  overwritten, so the loop reads what was there when it started.
\<close>

lemma copy_loop_Live:
  "src = Live k \<Longrightarrow> k + count \<le> off \<Longrightarrow> \<forall>j < count. dst ! (k + j) = bytes ! j \<Longrightarrow>
   copy_loop dst off src i count = copy_loop dst off (Fixed bytes) i count"
proof (induction dst off src i count rule: copy_loop.induct)
  case (1 dst off src i count)
  show ?case
  proof (cases "i < count")
    case False
    then show ?thesis
      by (simp add: copy_loop.simps [of dst off src i count]
            copy_loop.simps [of dst off "Fixed bytes" i count])
  next
    case True
    let ?d = "dst[off + i := bytes ! i]"
    have rd: "read_src dst src i = bytes ! i"
      using "1.prems" True by simp
    have "\<forall>j < count. ?d ! (k + j) = bytes ! j"
      using "1.prems"(2,3) by simp
    then have "copy_loop ?d off src (i + 1) count = copy_loop ?d off (Fixed bytes) (i + 1) count"
      using "1.IH" [OF True] "1.prems"(1,2) rd by simp
    then show ?thesis
      using True rd
      by (simp add: copy_loop.simps [of dst off src i count]
            copy_loop.simps [of dst off "Fixed bytes" i count])
  qed
qed

lemma ToString_GrowArray:
  "fs_inv s \<Longrightarrow> fs_capacity s \<le> n \<Longrightarrow> ToString (GrowArray uninit n s) = ToString s"
  by (auto simp add: fs_inv_def memcpy_def ToString_def)

lemma fs_inv_EnsureRoomForAppend:
  "fs_inv s \<Longrightarrow> fs_inv (EnsureRoomForAppend uninit count s)"
  by (simp add: EnsureRoomForAppend_def GrowByAtLeast_def fs_inv_GrowArray max.coboundedI2)

lemma ToString_EnsureRoomForAppend:
  "fs_inv s \<Longrightarrow> ToString (EnsureRoomForAppend uninit count s) = ToString s"
  by (simp add: EnsureRoomForAppend_def GrowByAtLeast_def ToString_GrowArray max.coboundedI2)

lemma src_apart_length:
  "fs_inv s \<Longrightarrow> src_apart s src count \<Longrightarrow> count \<le> length (src_bytes s src)"
  by (cases src) (auto simp add: src_apart_def src_bytes_def fs_inv_def)

lemma append_bytes_memcpy:
  assumes "fs_inv s" and "src_apart s src count"
  shows "append_bytes uninit src count s =
           (store (EnsureRoomForAppend uninit count s)
              (memcpy (data (EnsureRoomForAppend uninit count s)) (fs_len s)
                 (src_bytes s src) count))
           \<lparr>fs_len := fs_len s + count\<rparr>"
proof -
  let ?s1 = "EnsureRoomForAppend uninit count s"
  have "fs_inv ?s1" using assms(1) by (rule fs_inv_EnsureRoomForAppend)
  then have room: "fs_len s + count \<le> length (data ?s1)"
    using EnsureRoomForAppend_room [of s count uninit] by (simp add: fs_inv_def)
  have len: "count \<le> length (src_bytes s src)"
    using assms by (rule src_apart_length)
  show ?thesis
  proof (cases src)
    case (Outside bytes)
    then show ?thesis
      using room len
      by (simp add: append_bytes_def Let_def locate_def src_bytes_def copy_loop_memcpy)
  next
    case (Within k)
    show ?thesis
    proof (cases "fs_len s + count \<le> fs_capacity s")
      case False
      then show ?thesis
        using Within room len
        by (simp add: append_bytes_def Let_def locate_def src_bytes_def copy_loop_memcpy)
    next
      case True
      then have same: "?s1 = s" by (simp add: EnsureRoomForAppend_def)
      have apart: "k + count \<le> fs_len s"
        using assms(2) Within by (simp add: src_apart_def)
      have "\<forall>j < count. data s ! (k + j) = drop k (data s) ! j"
        using apart assms(1) by (simp add: fs_inv_def)
      then have "copy_loop (data s) (fs_len s) (Live k) 0 count
                   = copy_loop (data s) (fs_len s) (Fixed (drop k (data s))) 0 count"
        using apart by (intro copy_loop_Live) simp_all
      also have "\<dots> = memcpy (data s) (fs_len s) (drop k (data s)) count"
        using room len Within by (simp add: same src_bytes_def copy_loop_memcpy)
      finally show ?thesis
        using True Within
        by (simp add: append_bytes_def Let_def locate_def src_bytes_def same)
    qed
  qed
qed

lemma append_bytes_correct:
  assumes "fs_inv s" and "src_apart s src count"
  shows "fs_inv (append_bytes uninit src count s)"
    and "ToString (append_bytes uninit src count s) = ToString s @ take count (src_bytes s src)"
proof -
  let ?s1 = "EnsureRoomForAppend uninit count s"
  have inv1: "fs_inv ?s1" using assms(1) by (rule fs_inv_EnsureRoomForAppend)
  have room: "fs_len s + count \<le> length (data ?s1)" and cap: "length (data ?s1) = fs_capacity ?s1"
    using inv1 EnsureRoomForAppend_room [of s count uninit] by (simp_all add: fs_inv_def)
  have len: "count \<le> length (src_bytes s src)"
    using assms by (rule src_apart_length)
  have str: "take (fs_len s) (data ?s1) = ToString s"
    using ToString_EnsureRoomForAppend [OF assms(1), of uninit count] by (simp add: ToString_def)
  have "length (memcpy (data ?s1) (fs_len s) (src_bytes s src) count) = fs_capacity ?s1"
    using room cap len by (simp add: length_memcpy)
  with inv1 have "fs_inv (store ?s1 (memcpy (data ?s1) (fs_len s) (src_bytes s src) count))"
    by (rule fs_inv_store)
  then show "fs_inv (append_bytes uninit src count s)"
    using room cap by (simp add: append_bytes_memcpy [OF assms] fs_inv_def)
  show "ToString (append_bytes uninit src count s) = ToString s @ take count (src_bytes s src)"
    using take_memcpy [OF room len] str
    by (simp add: append_bytes_memcpy [OF assms] ToString_def)
qed

lemma appended_Outside:
  "appended uninit (map (\<lambda>(bytes, count). (Outside bytes, count)) xs) s
     = concat (map (\<lambda>(bytes, count). take count bytes) xs)"
  by (induction xs arbitrary: s) (auto simp add: src_bytes_def)

text \<open>
  C2, as the code has it. For every finite sequence of \<open>append(src, count)\<close> calls on a
  buffer, each with a source whose \<open>count\<close> bytes exist and are neither written nor
  freed by the call (they lie outside the buffer, or among its valid bytes while the
  call does not free the array), the final length is the starting length plus the sum
  of the counts, and the valid bytes are the starting contents followed by the byte
  sequences behind the sources, in order, whether a call copies byte by byte
  (\<open>count \<le> 4\<close>) or in bulk; the bytes lie inside the array, so the result is a buffer
  again.
\<close>

theorem append_all_concat:
  assumes "fs_inv s" and "sources_apart uninit calls s"
  shows "fs_len (append_all uninit calls s) = fs_len s + sum_list (map snd calls)
       \<and> ToString (append_all uninit calls s) = ToString s @ appended uninit calls s
       \<and> fs_inv (append_all uninit calls s)"
  using assms
proof (induction uninit calls s rule: append_all.induct)
  case (1 uninit s)
  then show ?case by simp
next
  case (2 uninit src count rest s)
  from "2.prems" have ok: "src_apart s src count"
    and rest: "sources_apart uninit rest (append_bytes uninit src count s)"
    by simp_all
  have "fs_inv (append_bytes uninit src count s)"
    using "2.prems"(1) ok by (rule append_bytes_correct(1))
  then show ?case
    using "2.IH" rest append_bytes_correct(2) [OF "2.prems"(1) ok, of uninit] by simp
qed

theorem append_all_concat_witness:
  "sources_apart zero_fill [(Outside [1, 2, 3], 3), (Within 1, 2), (Outside (replicate 40 9), 40)]
     (faststring_default zero_fill)
   \<and> fs_len (append_all zero_fill
               [(Outside [1, 2, 3], 3), (Within 1, 2), (Outside (replicate 40 9), 40)]
               (faststring_default zero_fill)) = 45
   \<and> ToString (append_all zero_fill
                 [(Outside [1, 2, 3], 3), (Within 1, 2), (Outside (replicate 40 9), 40)]
                 (faststring_default zero_fill))
       = [1, 2, 3, 2, 3] @ replicate 40 9"
proof -
  let ?s0 = "faststring_default zero_fill"
  let ?s1 = "append_bytes zero_fill (Outside [1, 2, 3]) 3 ?s0"
  let ?s2 = "append_bytes zero_fill (Within 1) 2 ?s1"
  have a1: "src_apart ?s0 (Outside [1, 2, 3]) 3"
    by (simp add: src_apart_def)
  have inv1: "fs_inv ?s1" and str1: "ToString ?s1 = [1, 2, 3]"
    using append_bytes_correct [OF fs_inv_default a1, of zero_fill]
    by (simp_all add: src_bytes_def ToString_def faststring_default_def)
  have a2: "src_apart ?s1 (Within 1) 2"
    by (simp add: src_apart_def EnsureRoomForAppend_def faststring_default_def kInitialCapacity_def)
  have "take 2 (drop 1 (data ?s1)) = take 2 (drop 1 (ToString ?s1))"
    by (simp add: ToString_def drop_take numeral_2_eq_2)
  then have b2: "take 2 (src_bytes ?s1 (Within 1)) = [2, 3]"
    by (simp add: str1 src_bytes_def)
  have a3: "src_apart ?s2 (Outside (replicate 40 9)) 40"
    by (simp add: src_apart_def)
  have apart: "sources_apart zero_fill
                 [(Outside [1, 2, 3], 3), (Within 1, 2), (Outside (replicate 40 9), 40)] ?s0"
    using a1 a2 a3 by simp
  have given: "appended zero_fill
                 [(Outside [1, 2, 3], 3), (Within 1, 2), (Outside (replicate 40 9), 40)] ?s0
               = [1, 2, 3, 2, 3] @ replicate 40 9"
    using b2 by (simp add: src_bytes_def)
  show ?thesis
    using append_all_concat [OF fs_inv_default apart] apart
    unfolding given by (simp add: ToString_def faststring_default_def)
qed

text \<open>
  C2, as the claim states it, fails where a source overlaps the bytes the call writes.
  A buffer holds the bytes 1, 2, 3 in its embedded array (the rest of the array is 0),
  and \<open>append(data(), 4)\<close> is called: the four bytes behind the source are 1, 2, 3, 0,
  but the byte loop reads the fourth one after it has written 1 there, and the buffer
  ends up with 1, 2, 3, 1, 2, 3, 1.
\<close>

theorem append_overlap_counterexample:
  "fs_inv (inline_buffer [1, 2, 3])
   \<and> ToString (inline_buffer [1, 2, 3]) = [1, 2, 3]
   \<and> appended zero_fill [(Within 0, 4)] (inline_buffer [1, 2, 3]) = [1, 2, 3, 0]
   \<and> ToString (append_all zero_fill [(Within 0, 4)] (inline_buffer [1, 2, 3]))
       = [1, 2, 3, 1, 2, 3, 1]
   \<and> ToString (append_all zero_fill [(Within 0, 4)] (inline_buffer [1, 2, 3]))
       \<noteq> ToString (inline_buffer [1, 2, 3])
           @ appended zero_fill [(Within 0, 4)] (inline_buffer [1, 2, 3])"
proof -
  let ?s = "inline_buffer [1, 2, 3]"
  have inv: "fs_inv ?s"
    by (rule fs_inv_inline_buffer) (simp add: kInitialCapacity_def)
  have dat: "data ?s = [1, 2, 3] @ replicate 29 0"
    by (simp add: inline_buffer_def data_def kInitialCapacity_def)
  have len: "fs_len ?s = 3" and cap: "fs_capacity ?s = 32"
    by (simp_all add: inline_buffer_def kInitialCapacity_def)
  have given: "appended zero_fill [(Within 0, 4)] ?s = [1, 2, 3, 0]"
    by (simp add: src_bytes_def dat)
  have room: "EnsureRoomForAppend zero_fill 4 ?s = ?s"
    by (simp add: EnsureRoomForAppend_def len cap)
  have loop: "take 7 (copy_loop (data ?s) 3 (Live 0) 0 4) = [1, 2, 3, 1, 2, 3, 1]"
    unfolding dat by (simp add: copy_loop.simps eval_nat_numeral)
  have "ToString (append_all zero_fill [(Within 0, 4)] ?s) = [1, 2, 3, 1, 2, 3, 1]"
    using loop by (simp add: ToString_def append_bytes_def Let_def locate_def room len cap)
  with inv given show ?thesis
    by (simp add: ToString_inline_buffer)
qed

section \<open>Operations keep a buffer a buffer\<close>

lemma fs_inv_reserve: "fs_inv s \<Longrightarrow> fs_inv (reserve uninit n s)"
  by (simp add: reserve_def fs_inv_GrowArray)

lemma fs_inv_push_back: "fs_inv s \<Longrightarrow> fs_inv (push_back uninit b s)"
proof -
  assume "fs_inv s"
  then have inv1: "fs_inv (EnsureRoomForAppend uninit 1 s)"
    by (rule fs_inv_EnsureRoomForAppend)
  then have "fs_inv (store (EnsureRoomForAppend uninit 1 s)
               ((data (EnsureRoomForAppend uninit 1 s))[fs_len s := b]))"
    by (rule fs_inv_store) (use inv1 in \<open>simp add: fs_inv_def\<close>)
  then show ?thesis
    using EnsureRoomForAppend_room [of s 1 uninit]
    by (simp add: push_back_def Let_def fs_inv_def)
qed

lemma fs_inv_release: "fs_inv s \<Longrightarrow> fs_inv (snd (release uninit s))"
  by (simp add: release_def Let_def fs_inv_def data_def)

lemma AdvanceToSuccessor_loop_inv:
  "fs_inv s \<Longrightarrow> fs_inv (snd (AdvanceToSuccessor_loop uninit s is_done index))"
proof (induction uninit s is_done index rule: AdvanceToSuccessor_loop.induct)
  case (1 uninit s is_done index)
  show ?case
  proof (cases rule: AdvanceToSuccessor_loop_cases [where is_done = is_done and index = index and s = s])
    case 1
    with "1.prems" show ?thesis by (simp add: AdvanceToSuccessor_loop_stop)
  next
    case 2
    with "1.IH"(1) "1.prems" show ?thesis by (simp add: AdvanceToSuccessor_loop_skip)
  next
    case 3
    have "fs_inv (store s ((data s)[nat index := data s ! nat index + 1]))"
      using "1.prems" by (rule fs_inv_store) (use "1.prems" in \<open>simp add: fs_inv_def\<close>)
    then show ?thesis
      using 3 by (simp add: AdvanceToSuccessor_loop_hit fs_inv_resize)
  qed
qed

lemma apply_op_inv: "fs_inv s \<Longrightarrow> valid_call s op \<Longrightarrow> fs_inv (apply_op uninit op s)"
  by (cases op)
     (simp_all add: clear_def fs_inv_resize fs_inv_reserve append_bytes_correct(1) fs_inv_push_back
        fs_inv_assign_copy fs_inv_release AdvanceToSuccessor_def AdvanceToSuccessor_loop_inv)

lemma run_ops_inv: "fs_inv s \<Longrightarrow> valid_run ops s \<Longrightarrow> fs_inv (run_ops ops s)"
  by (induction ops s rule: run_ops.induct) (simp_all add: apply_op_inv)

section \<open>AdvanceToSuccessor\<close>

lemma AdvanceToSuccessor_loop_False:
  "\<not> fst (AdvanceToSuccessor_loop uninit s is_done index) \<Longrightarrow>
   AdvanceToSuccessor_loop uninit s is_done index = (False, s)"
proof (induction uninit s is_done index rule: AdvanceToSuccessor_loop.induct)
  case (1 uninit s is_done index)
  show ?case
  proof (cases rule: AdvanceToSuccessor_loop_cases [where is_done = is_done and index = index and s = s])
    case 1
    with "1.prems" show ?thesis by (simp add: AdvanceToSuccessor_loop_stop)
  next
    case 2
    with "1.IH"(1) "1.prems" show ?thesis by (simp add: AdvanceToSuccessor_loop_skip)
  next
    case 3
    with "1.prems" show ?thesis by (simp add: AdvanceToSuccessor_loop_hit)
  qed
qed

text \<open>
  C10. When \<open>AdvanceToSuccessor()\<close> returns false, the buffer is exactly as it was:
  length, capacity and contents. The scan only moves \<open>index\<close>; the write and the
  \<open>resize\<close> are in the branch that sets \<open>done\<close>.
\<close>

theorem AdvanceToSuccessor_failure_unchanged:
  "\<not> fst (AdvanceToSuccessor uninit s) \<Longrightarrow> snd (AdvanceToSuccessor uninit s) = s"
  using AdvanceToSuccessor_loop_False [of uninit s False "to_int (int (fs_len s) - 1)"]
  by (simp add: AdvanceToSuccessor_def)

theorem AdvanceToSuccessor_failure_unchanged_witness:
  "\<not> fst (AdvanceToSuccessor zero_fill (assign_copy zero_fill [255, 255] 2 (faststring_default zero_fill)))
   \<and> snd (AdvanceToSuccessor zero_fill (assign_copy zero_fill [255, 255] 2 (faststring_default zero_fill)))
       = assign_copy zero_fill [255, 255] 2 (faststring_default zero_fill)"
proof -
  let ?s = "assign_copy zero_fill [255, 255] 2 (faststring_default zero_fill)"
  have dat: "data ?s = memcpy (new_uint8 zero_fill 32) 0 [255, 255] 2"
    by (simp add: assign_copy_def Let_def data_resize faststring_default_def kInitialCapacity_def)
       (simp add: data_def)
  have d0: "data ?s ! 0 = 255" and d1: "data ?s ! 1 = 255"
    unfolding dat by (simp_all add: memcpy_def)
  have "AdvanceToSuccessor zero_fill ?s = AdvanceToSuccessor_loop zero_fill ?s False 1"
    by (simp add: AdvanceToSuccessor_def to_int_def)
  also have "\<dots> = AdvanceToSuccessor_loop zero_fill ?s False 0"
    using AdvanceToSuccessor_loop_skip [of 1 ?s zero_fill] d1 by simp
  also have "\<dots> = AdvanceToSuccessor_loop zero_fill ?s False (- 1)"
    using AdvanceToSuccessor_loop_skip [of 0 ?s zero_fill] d0 by simp
  also have "\<dots> = (False, ?s)"
    by (simp add: AdvanceToSuccessor_loop_stop)
  finally have run: "AdvanceToSuccessor zero_fill ?s = (False, ?s)" .
  then have "\<not> fst (AdvanceToSuccessor zero_fill ?s)" by simp
  then show ?thesis
    using AdvanceToSuccessor_failure_unchanged [of zero_fill ?s] by simp
qed

subsection \<open>Buffers of at most INT_MAX bytes\<close>

lemma spec_successor_snoc_max [simp]: "spec_successor (xs @ [255]) = spec_successor xs"
  by (simp add: spec_successor_def)

lemma spec_successor_snoc [simp]: "b \<noteq> 255 \<Longrightarrow> spec_successor (xs @ [b]) = xs @ [b + 1]"
  by (simp add: spec_successor_def)

lemma spec_successor_replicate [simp]:
  "spec_successor (xs @ replicate k 255) = spec_successor xs"
proof (induction k)
  case 0
  then show ?case by simp
next
  case (Suc k)
  have "xs @ replicate (Suc k) 255 = (xs @ replicate k 255) @ [255]"
    by (simp add: replicate_append_same)
  then show ?case using Suc by (simp only: spec_successor_snoc_max)
qed

lemma byte_255: "(255 :: byte) = - 1"
  by simp

lemma byte_max [simp]: "\<not> (255 :: byte) < c"
  unfolding byte_255 by simp

lemma byte_less_succ: "b \<noteq> 255 \<Longrightarrow> (b :: byte) < b + 1"
  unfolding byte_255 by (meson inc_less_eq_triv_imp not_le_imp_less)

lemma byte_succ_le: "(b :: byte) < c \<Longrightarrow> b + 1 \<le> c"
  by (rule inc_le)

lemma split_last_non_max:
  "\<exists>b \<in> set xs. b \<noteq> (255 :: byte) \<Longrightarrow> \<exists>p b k. xs = p @ b # replicate k 255 \<and> b \<noteq> 255"
proof (induction xs rule: rev_induct)
  case Nil
  then show ?case by simp
next
  case (snoc x xs)
  show ?case
  proof (cases "x = 255")
    case False
    then have "xs @ [x] = xs @ x # replicate 0 255 \<and> x \<noteq> 255" by simp
    then show ?thesis by blast
  next
    case True
    with snoc.prems have "\<exists>b \<in> set xs. b \<noteq> 255" by auto
    then obtain p b k where "xs = p @ b # replicate k 255" "b \<noteq> 255"
      using snoc.IH by blast
    then have "xs @ [x] = p @ b # replicate (Suc k) 255 \<and> b \<noteq> 255"
      using True by (simp add: replicate_append_same)
    then show ?thesis by blast
  qed
qed

lemma lexordp_all_max: "ord_class.lexordp (replicate k (255 :: byte)) w \<Longrightarrow> k < length w"
proof (induction k arbitrary: w)
  case 0
  then show ?case by simp
next
  case (Suc k)
  then show ?case by (cases w) (auto)
qed

lemma spec_successor_split:
  "b \<noteq> 255 \<Longrightarrow> spec_successor (p @ b # replicate k 255) = p @ [b + 1]"
  using spec_successor_replicate [of "p @ [b]" k] by simp

lemma successor_least_split:
  assumes "b \<noteq> (255 :: byte)" and "length zs \<le> length (p @ b # replicate k 255)"
    and "ord_class.lexordp (p @ b # replicate k 255) zs"
  shows "zs = p @ [b + 1] \<or> ord_class.lexordp (p @ [b + 1]) zs"
  using assms(2,3)
proof (induction p arbitrary: zs)
  case Nil
  then obtain c w where zs: "zs = c # w" by (cases zs) auto
  with Nil have "b < c \<or> b = c \<and> ord_class.lexordp (replicate k 255) w" by auto
  moreover have "\<not> ord_class.lexordp (replicate k 255) w"
    using Nil.prems(1) zs lexordp_all_max [of k w] by auto
  ultimately have "b < c" by simp
  then have "b + 1 \<le> c" by (rule byte_succ_le)
  then show ?case using zs by (cases w) auto
next
  case (Cons a p)
  then obtain c w where zs: "zs = c # w" by (cases zs) auto
  with Cons.prems have "a < c \<or> a = c \<and> ord_class.lexordp (p @ b # replicate k 255) w" by auto
  then show ?case
  proof
    assume "a < c"
    then show ?thesis using zs by simp
  next
    assume "a = c \<and> ord_class.lexordp (p @ b # replicate k 255) w"
    then show ?thesis using Cons.IH [of w] Cons.prems(1) zs by auto
  qed
qed

lemma spec_successor_least:
  assumes "\<exists>b \<in> set xs. b \<noteq> 255"
  shows "length (spec_successor xs) \<le> length xs"
    and "bytes_less xs (spec_successor xs)"
    and "length zs \<le> length xs \<Longrightarrow> bytes_less xs zs \<Longrightarrow>
         zs = spec_successor xs \<or> bytes_less (spec_successor xs) zs"
proof -
  obtain p b k where xs: "xs = p @ b # replicate k 255" and b: "b \<noteq> 255"
    using split_last_non_max [OF assms] by blast
  have succ: "spec_successor (p @ b # replicate k 255) = p @ [b + 1]"
    using b by (rule spec_successor_split)
  show "length (spec_successor xs) \<le> length xs"
    unfolding xs succ by simp
  show "bytes_less xs (spec_successor xs)"
    unfolding bytes_less_def xs succ
    using lexordp_append_left_rightI [OF byte_less_succ [OF b], of p "replicate k 255" "[]"] by simp
  show "zs = spec_successor xs \<or> bytes_less (spec_successor xs) zs"
    if "length zs \<le> length xs" and "bytes_less xs zs"
    using successor_least_split [OF b, of zs p k] that
    unfolding bytes_less_def xs succ by simp
qed

lemma to_size_t_to_int: "0 \<le> x \<Longrightarrow> x < 2 ^ 31 \<Longrightarrow> to_size_t (to_int x) = nat x"
  by (simp add: to_size_t_def to_int_def signed_take_bit_int_eq_self)

lemma AdvanceToSuccessor_loop_correct:
  assumes "n \<le> length (data s)" and "n \<le> fs_capacity s" and "n < 2 ^ 31"
  shows "fst (AdvanceToSuccessor_loop uninit s False (int n - 1))
           = (\<exists>b \<in> set (take n (data s)). b \<noteq> 255)
       \<and> (fst (AdvanceToSuccessor_loop uninit s False (int n - 1)) \<longrightarrow>
            ToString (snd (AdvanceToSuccessor_loop uninit s False (int n - 1)))
              = spec_successor (take n (data s))
          \<and> fs_capacity (snd (AdvanceToSuccessor_loop uninit s False (int n - 1))) = fs_capacity s)"
  using assms
proof (induction n)
  case 0
  then show ?case by (simp add: AdvanceToSuccessor_loop_stop)
next
  case (Suc n)
  have tk: "take (Suc n) (data s) = take n (data s) @ [data s ! n]"
    using Suc.prems(1) by (simp add: take_Suc_conv_app_nth)
  show ?case
  proof (cases "data s ! n = 255")
    case True
    have "AdvanceToSuccessor_loop uninit s False (int (Suc n) - 1)
            = AdvanceToSuccessor_loop uninit s False (int n - 1)"
      using AdvanceToSuccessor_loop_skip [of "int n" s uninit] True by simp
    then show ?thesis
      using Suc.IH Suc.prems True by (simp add: tk)
  next
    case False
    have sz: "to_size_t (to_int (int n + 1)) = Suc n"
      using Suc.prems(3) to_size_t_to_int [of "int n + 1"] by simp
    have "AdvanceToSuccessor_loop uninit s False (int (Suc n) - 1)
            = (True, resize uninit (Suc n) (store s ((data s)[n := data s ! n + 1])))"
      using AdvanceToSuccessor_loop_hit [of "int n" s uninit] False by (simp add: sz)
    then show ?thesis
      using Suc.prems False
      by (simp add: tk ToString_def data_resize take_Suc_conv_app_nth max_absorb2)
  qed
qed

lemma AdvanceToSuccessor_short_buffer:
  assumes "fs_inv s" and "fs_len s < 2 ^ 31"
  shows "fst (AdvanceToSuccessor uninit s) = (\<exists>b \<in> set (ToString s). b \<noteq> 255)"
    and "fst (AdvanceToSuccessor uninit s) \<Longrightarrow>
           ToString (snd (AdvanceToSuccessor uninit s)) = spec_successor (ToString s)"
proof -
  have idx: "to_int (int (fs_len s) - 1) = int (fs_len s) - 1"
    using assms(2) by (simp add: to_int_def signed_take_bit_int_eq_self)
  have "fs_len s \<le> length (data s)" and "fs_len s \<le> fs_capacity s"
    using assms(1) by (simp_all add: fs_inv_def)
  from AdvanceToSuccessor_loop_correct [OF this assms(2), of uninit]
  show "fst (AdvanceToSuccessor uninit s) = (\<exists>b \<in> set (ToString s). b \<noteq> 255)"
    and "fst (AdvanceToSuccessor uninit s) \<Longrightarrow>
           ToString (snd (AdvanceToSuccessor uninit s)) = spec_successor (ToString s)"
    by (simp_all add: AdvanceToSuccessor_def idx ToString_def)
qed

text \<open>
  The scenarios of the specification, as byte values: "foo" gives "fop"; "aab" followed
  by two 0xFF bytes gives "aac"; two 0xFF bytes followed by 0x00 give the same with 0x01
  at the end; a single 0xFF byte and the empty buffer give false.
\<close>

lemma AdvanceToSuccessor_examples:
  "fst (AdvanceToSuccessor uninit (inline_buffer [102, 111, 111]))"
  "ToString (snd (AdvanceToSuccessor uninit (inline_buffer [102, 111, 111]))) = [102, 111, 112]"
  "fst (AdvanceToSuccessor uninit (inline_buffer [97, 97, 98, 255, 255]))"
  "ToString (snd (AdvanceToSuccessor uninit (inline_buffer [97, 97, 98, 255, 255]))) = [97, 97, 99]"
  "fst (AdvanceToSuccessor uninit (inline_buffer [255, 255, 0]))"
  "ToString (snd (AdvanceToSuccessor uninit (inline_buffer [255, 255, 0]))) = [255, 255, 1]"
  "\<not> fst (AdvanceToSuccessor uninit (inline_buffer [255]))"
  "\<not> fst (AdvanceToSuccessor uninit (inline_buffer []))"
proof -
  have short: "fs_inv (inline_buffer xs) \<and> fs_len (inline_buffer xs) < 2 ^ 31"
    if "length xs \<le> 32" for xs
    using that fs_inv_inline_buffer [of xs] by (simp add: kInitialCapacity_def inline_buffer_def)
  have ret: "fst (AdvanceToSuccessor uninit (inline_buffer xs)) = (\<exists>b \<in> set xs. b \<noteq> 255)"
    if "length xs \<le> 32" for xs
    using AdvanceToSuccessor_short_buffer(1) [of "inline_buffer xs" uninit] short [OF that]
    by (simp add: ToString_inline_buffer)
  have str: "ToString (snd (AdvanceToSuccessor uninit (inline_buffer xs))) = spec_successor xs"
    if "length xs \<le> 32" and "\<exists>b \<in> set xs. b \<noteq> 255" for xs
    using AdvanceToSuccessor_short_buffer(2) [of "inline_buffer xs" uninit] short [OF that(1)]
      ret [OF that(1)] that(2)
    by (simp add: ToString_inline_buffer)
  show "fst (AdvanceToSuccessor uninit (inline_buffer [102, 111, 111]))"
    "fst (AdvanceToSuccessor uninit (inline_buffer [97, 97, 98, 255, 255]))"
    "fst (AdvanceToSuccessor uninit (inline_buffer [255, 255, 0]))"
    "\<not> fst (AdvanceToSuccessor uninit (inline_buffer [255]))"
    "\<not> fst (AdvanceToSuccessor uninit (inline_buffer []))"
    by (simp_all add: ret)
  show "ToString (snd (AdvanceToSuccessor uninit (inline_buffer [102, 111, 111]))) = [102, 111, 112]"
    "ToString (snd (AdvanceToSuccessor uninit (inline_buffer [97, 97, 98, 255, 255]))) = [97, 97, 99]"
    "ToString (snd (AdvanceToSuccessor uninit (inline_buffer [255, 255, 0]))) = [255, 255, 1]"
    by (simp_all add: str spec_successor_def)
qed

subsection \<open>Longer buffers\<close>

text \<open>
  C1. AdvanceToSuccessor() returns true exactly when the contents hold a byte other than
  0xFF, and then leaves the least byte sequence no longer than the contents and greater
  than them. The code keeps the position in an \<open>int\<close>. For contents of at most
  \<open>2 ^ 31 - 1\<close> bytes it does what the claim says (\<open>AdvanceToSuccessor_short_buffer\<close>,
  \<open>spec_successor_least\<close>). For a buffer of \<open>2 ^ 31 + 1\<close> zero bytes, \<open>len_ - 1\<close>
  converts to a negative \<open>int\<close>, the loop body never runs and the call returns false
  with the buffer unchanged, although every byte differs from 0xFF.
\<close>

theorem AdvanceToSuccessor_long_buffer:
  "fs_inv long_buffer \<and> fs_len long_buffer = 2 ^ 31 + 1 \<and> ToString long_buffer ! 0 = 0
   \<and> AdvanceToSuccessor zero_fill long_buffer = (False, long_buffer)"
proof -
  have dat: "data long_buffer = new_uint8 zero_fill (2 ^ 31 + 1)"
    by (simp add: long_buffer_def data_resize faststring_default_def kInitialCapacity_def memcpy_def)
  have len: "fs_len long_buffer = 2 ^ 31 + 1" and cap: "fs_capacity long_buffer = 2 ^ 31 + 1"
    by (simp_all add: long_buffer_def faststring_default_def kInitialCapacity_def)
  have ini: "length (fs_initial_data long_buffer) = kInitialCapacity"
    by (simp add: long_buffer_def faststring_default_def)
  have inv: "fs_inv long_buffer"
    unfolding fs_inv_def dat len cap ini by (simp add: kInitialCapacity_def)
  have str: "ToString long_buffer ! 0 = 0"
    unfolding ToString_def dat len by (simp add: zero_fill_def)
  have "AdvanceToSuccessor zero_fill long_buffer = (False, long_buffer)"
    unfolding AdvanceToSuccessor_def len by (simp add: to_int_def AdvanceToSuccessor_loop_stop)
  with inv len str show ?thesis by simp
qed

end
